theory Spec2Isabelle
  imports Main "HOL-Library.Sublist"
begin

section \<open>Python string primitives\<close>

text \<open>
  Strings are lists of 8-bit characters; the development covers ASCII documents.
  \<open>isspace\<close> is the ASCII part of Python's whitespace class (used by \<open>str.strip\<close> and
  by \<open>\s\<close> in a regular expression), \<open>lower\<close> maps \<open>A..Z\<close> to \<open>a..z\<close>.
  The substring test \<open>needle in haystack\<close> is \<^const>\<open>sublist\<close>, and
  \<open>s.startswith(p)\<close> is \<^const>\<open>prefix\<close>.
\<close>

definition NL :: char where
  "NL = CHR 0x0A"

definition isspace :: "char \<Rightarrow> bool" where
  "isspace c = (c \<in> {CHR 0x09, CHR 0x0A, CHR 0x0B, CHR 0x0C, CHR 0x0D,
                      CHR 0x1C, CHR 0x1D, CHR 0x1E, CHR 0x1F, CHR 0x20})"

definition lower_char :: "char \<Rightarrow> char" where
  "lower_char c =
     (case map_of (zip ''ABCDEFGHIJKLMNOPQRSTUVWXYZ'' ''abcdefghijklmnopqrstuvwxyz'') c of
        Some d \<Rightarrow> d
      | None \<Rightarrow> c)"

definition lower :: "string \<Rightarrow> string" where
  "lower s = map lower_char s"

definition strip :: "string \<Rightarrow> string" where
  "strip s = rev (dropWhile isspace (rev (dropWhile isspace s)))"

fun split_nl :: "string \<Rightarrow> string list" where
  "split_nl [] = [[]]"
| "split_nl (c # cs) =
     (if c = NL then [] # split_nl cs
      else (case split_nl cs of l # ls \<Rightarrow> (c # l) # ls | [] \<Rightarrow> [[c]]))"

fun join :: "string \<Rightarrow> string list \<Rightarrow> string" where
  "join sep [] = []"
| "join sep [x] = x"
| "join sep (x # y # ys) = x @ sep @ join sep (y # ys)"

section \<open>Data model (models.py)\<close>

datatype SectionLevel = MAIN | SUB | DETAIL

fun level_value :: "SectionLevel \<Rightarrow> nat" where
  "level_value MAIN = 1"
| "level_value SUB = 2"
| "level_value DETAIL = 3"

datatype py_error = ValueError

text \<open>The enum constructor \<open>SectionLevel(n)\<close> raises \<open>ValueError\<close> outside 1..3.\<close>

definition SectionLevel_of :: "nat \<Rightarrow> py_error + SectionLevel" where
  "SectionLevel_of n =
     (if n = 1 then Inr MAIN else if n = 2 then Inr SUB else if n = 3 then Inr DETAIL
      else Inl ValueError)"

record CodeBlock =
  language :: string
  code :: string
  context_section :: string
  cb_line_number :: nat

datatype Section = Section
  (title: string)
  (level: SectionLevel)
  (content: string)
  (path: string)
  (line_number: nat)
  (code_blocks: "CodeBlock list")
  (subsections: "Section list")

record APIEntry =
  name :: string
  entry_type :: string
  description :: string
  parameters :: "(string \<times> string) list list"
  returns :: "string option"
  examples :: "CodeBlock list"
  section_path :: string

text \<open>
  A Python \<open>dict\<close> keeps its keys in order of first insertion; assigning to a key that is
  present replaces the value and keeps the position.
\<close>

type_synonym ('k, 'v) dict = "('k \<times> 'v) list"

fun dict_set :: "('k, 'v) dict \<Rightarrow> 'k \<Rightarrow> 'v \<Rightarrow> ('k, 'v) dict" where
  "dict_set [] k v = [(k, v)]"
| "dict_set ((k', v') # kvs) k v =
     (if k' = k then (k, v) # kvs else (k', v') # dict_set kvs k v)"

definition dict_get :: "('k, 'v) dict \<Rightarrow> 'k \<Rightarrow> 'v option" where
  "dict_get d k = map_of d k"

definition dict_keys :: "('k, 'v) dict \<Rightarrow> 'k list" where
  "dict_keys d = map fst d"

definition dict_values :: "('k, 'v) dict \<Rightarrow> 'v list" where
  "dict_values d = map snd d"

record ParsedDoc =
  sections :: "Section list"
  sections_by_path :: "(string, Section) dict"
  all_code_blocks :: "CodeBlock list"
  api_entries :: "(string, APIEntry) dict"


text \<open>\<open>Section.get_full_content\<close>; the recursive call uses the default \<open>True\<close>.\<close>

fun get_full_content :: "Section \<Rightarrow> bool \<Rightarrow> string" where
  "get_full_content (Section t l c p n cbs subs) include_subsections =
     replicate (level_value l) (CHR ''#'') @ '' '' @ t @ [NL, NL] @ c @
     (if include_subsections
      then concat (map (\<lambda>s. [NL, NL] @ get_full_content s True) subs)
      else [])"

section \<open>The parser (parser.py)\<close>

subsection \<open>Section objects on a heap\<close>

text \<open>
  The parser mutates \<open>Section\<close> objects that are shared between the stack of open
  sections, the \<open>subsections\<close> list of their parent and \<open>self.sections\<close>. An object is a
  heap cell; its address is its index in the heap, in order of creation.
\<close>

record section_obj =
  o_title :: string
  o_level :: SectionLevel
  o_content :: string
  o_path :: string
  o_line_number :: nat
  o_code_blocks :: "CodeBlock list"
  o_subsections :: "nat list"

record parser_state =
  heap :: "section_obj list"
  p_sections :: "nat list"
  p_code_blocks :: "CodeBlock list"
  stack :: "nat list"

definition init_state :: parser_state where
  "init_state = \<lparr>heap = [], p_sections = [], p_code_blocks = [], stack = []\<rparr>"

subsection \<open>Header lines\<close>

text \<open>
  \<open>re.match(r'^(#{1,3})\s+(.+)$', line)\<close> on a line without newline. The marker group can
  only end where whitespace follows, so the line has exactly 1 to 3 leading \<open>#\<close>. The
  greedy \<open>\s+\<close> takes all the whitespace that follows; when nothing is left for \<open>.+\<close>
  it gives back its last character, which needs two whitespace characters. The result
  is the length of group 1 and the text of group 2.
\<close>

definition header_match :: "string \<Rightarrow> (nat \<times> string) option" where
  "header_match line =
     (let k = length (takeWhile (\<lambda>c. c = CHR ''#'') line);
          rest = drop k line;
          ws = takeWhile isspace rest;
          tail = dropWhile isspace rest
      in if k < 1 \<or> 3 < k \<or> ws = [] then None
         else if tail \<noteq> [] then Some (k, tail)
         else if 2 \<le> length ws then Some (k, [last ws])
         else None)"

definition build_path :: "section_obj list \<Rightarrow> nat list \<Rightarrow> string \<Rightarrow> string" where
  "build_path h stk t = join ''/'' (map (\<lambda>a. o_title (h ! a)) stk @ [t])"

text \<open>
  \<open>_add_section_to_hierarchy\<close>: the section at address \<open>a\<close> is already allocated; the
  stack is scanned from its top (the end of the list).
\<close>

definition add_section_to_hierarchy :: "nat \<Rightarrow> parser_state \<Rightarrow> parser_state" where
  "add_section_to_hierarchy a st =
     (let h = heap st in
      if stack st = [] then st\<lparr>p_sections := p_sections st @ [a]\<rparr>
      else
        (case find (\<lambda>p. level_value (o_level (h ! p)) < level_value (o_level (h ! a)))
                (rev (stack st)) of
           Some p \<Rightarrow>
             st\<lparr>heap := h[p := (h ! p)\<lparr>o_subsections := o_subsections (h ! p) @ [a]\<rparr>]\<rparr>
         | None \<Rightarrow> st\<lparr>p_sections := p_sections st @ [a]\<rparr>))"

text \<open>The loop \<open>while stack and stack[-1].level.value >= level: stack.pop()\<close>.\<close>

definition pop_stack :: "section_obj list \<Rightarrow> nat \<Rightarrow> nat list \<Rightarrow> nat list" where
  "pop_stack h lv stk = rev (dropWhile (\<lambda>a. lv \<le> level_value (o_level (h ! a))) (rev stk))"

definition new_section :: "nat \<Rightarrow> SectionLevel \<Rightarrow> string \<Rightarrow> parser_state \<Rightarrow> parser_state" where
  "new_section i lvl t st =
     (let a = length (heap st);
          sec = \<lparr>o_title = t, o_level = lvl, o_content = [],
                 o_path = build_path (heap st) (stack st) t, o_line_number = i,
                 o_code_blocks = [], o_subsections = []\<rparr>;
          st1 = add_section_to_hierarchy a (st\<lparr>heap := heap st @ [sec]\<rparr>)
      in st1\<lparr>stack := pop_stack (heap st1) (level_value lvl) (stack st1) @ [a]\<rparr>)"

subsection \<open>Code fences\<close>

text \<open>The inner loop of \<open>_parse_code_block\<close>: look for the closing fence from line \<open>i\<close>.\<close>

function find_fence_end :: "string list \<Rightarrow> nat \<Rightarrow> string list \<Rightarrow> string option \<times> nat" where
  "find_fence_end lines i code_lines =
     (if i < length lines then
        (if strip (lines ! i) = ''```'' then (Some (join [NL] code_lines), i)
         else find_fence_end lines (i + 1) (code_lines @ [lines ! i]))
      else (None, i))"
  by pat_completeness auto
termination
  by (relation "measure (\<lambda>(lines, i, code_lines). length lines - i)") auto

declare find_fence_end.simps [simp del]

definition parse_code_block :: "string list \<Rightarrow> nat \<Rightarrow> CodeBlock option \<times> nat" where
  "parse_code_block lines start_line =
     (if \<not> prefix ''```'' (strip (lines ! start_line)) then (None, start_line)
      else
        (let first_line = strip (lines ! start_line);
             tag = strip (drop 3 first_line);
             lang = (if tag = [] then ''plaintext'' else tag)
         in case find_fence_end lines (start_line + 1) [] of
              (Some c, i) \<Rightarrow>
                (Some \<lparr>language = lang, code = c, context_section = [],
                       cb_line_number = start_line\<rparr>, i)
            | (None, i) \<Rightarrow> (None, i)))"

text \<open>Attaching a closed block to the innermost open section and to the global list.\<close>

definition attach_code_block :: "CodeBlock \<Rightarrow> parser_state \<Rightarrow> parser_state" where
  "attach_code_block b st =
     (let h = heap st; top = last (stack st);
          b' = b\<lparr>context_section := o_path (h ! top)\<rparr>
      in st\<lparr>heap := h[top := (h ! top)\<lparr>o_code_blocks := o_code_blocks (h ! top) @ [b']\<rparr>],
            p_code_blocks := p_code_blocks st @ [b']\<rparr>)"

definition append_content :: "string \<Rightarrow> parser_state \<Rightarrow> parser_state" where
  "append_content line st =
     (let h = heap st; top = last (stack st)
      in st\<lparr>heap := h[top := (h ! top)\<lparr>o_content := o_content (h ! top) @ line @ [NL]\<rparr>]\<rparr>)"

subsection \<open>The main loop\<close>

text \<open>
  One iteration of the \<open>while\<close> loop of \<open>parse_document\<close> at line \<open>i\<close>: the new state and
  the value of \<open>i\<close> before the final \<open>i += 1\<close>.
\<close>

definition step :: "string list \<Rightarrow> nat \<Rightarrow> parser_state \<Rightarrow> py_error + (parser_state \<times> nat)" where
  "step lines i st =
     (let line = lines ! i in
      case header_match line of
        Some (n, g2) \<Rightarrow>
          (case SectionLevel_of n of
             Inl e \<Rightarrow> Inl e
           | Inr lvl \<Rightarrow> Inr (new_section i lvl (strip g2) st, i))
      | None \<Rightarrow>
          if prefix ''```'' (strip line) then
            (case parse_code_block lines i of
               (Some b, end_line) \<Rightarrow>
                 Inr (if stack st \<noteq> [] then attach_code_block b st else st, end_line)
             | (None, end_line) \<Rightarrow> Inr (st, end_line))
          else if stack st \<noteq> [] then Inr (append_content line st, i)
          else Inr (st, i))"

lemma find_fence_end_ge: "i \<le> snd (find_fence_end lines i acc)"
proof (induction lines i acc rule: find_fence_end.induct)
  case (1 lines i code_lines)
  show ?case
  proof (cases "i < length lines \<and> strip (lines ! i) \<noteq> ''```''")
    case True
    with 1 have "i + 1 \<le> snd (find_fence_end lines (i + 1) (code_lines @ [lines ! i]))"
      by simp
    with True show ?thesis
      by (subst find_fence_end.simps) simp
  next
    case False
    then show ?thesis
      by (subst find_fence_end.simps) auto
  qed
qed

lemma parse_code_block_ge: "parse_code_block lines i = (r, e) \<Longrightarrow> i \<le> e"
  using find_fence_end_ge [of "i + 1" lines "[]"]
  by (auto simp: parse_code_block_def Let_def split: if_splits prod.splits option.splits)

lemma step_ge: "step lines i st = Inr (st', i') \<Longrightarrow> i \<le> i'"
  by (auto simp: step_def Let_def split: option.splits sum.splits if_splits prod.splits
      dest: parse_code_block_ge)

function parse_loop :: "string list \<Rightarrow> nat \<Rightarrow> parser_state \<Rightarrow> py_error + parser_state" where
  "parse_loop lines i st =
     (if i < length lines then
        (case step lines i st of
           Inl e \<Rightarrow> Inl e
         | Inr (st', i') \<Rightarrow> parse_loop lines (i' + 1) st')
      else Inr st)"
  by pat_completeness auto
termination
proof (relation "measure (\<lambda>(lines, i, st). length lines - i)")
  show "wf (measure (\<lambda>(lines, i, st). length lines - i))"
    by simp
next
  fix lines :: "string list" and i :: nat and st :: parser_state and x2 x y
  assume "i < length lines" "step lines i st = Inr x2" "(x, y) = x2"
  then have "i \<le> y"
    using step_ge [of lines i st x y] by simp
  with \<open>i < length lines\<close>
  show "((lines, y + 1, x), (lines, i, st)) \<in> measure (\<lambda>(lines, i, st). length lines - i)"
    by simp
qed

declare parse_loop.simps [simp del]

subsection \<open>Reading the object graph\<close>

text \<open>
  The \<open>Section\<close> value that an address denotes, read to depth \<open>n + 1\<close>. Children are
  allocated after their parent, so the size of the heap is enough fuel
  (lemma \<open>read_section_fuel\<close> below).
\<close>

fun read_section :: "nat \<Rightarrow> section_obj list \<Rightarrow> nat \<Rightarrow> Section" where
  "read_section 0 h a =
     Section (o_title (h ! a)) (o_level (h ! a)) (o_content (h ! a)) (o_path (h ! a))
       (o_line_number (h ! a)) (o_code_blocks (h ! a)) []"
| "read_section (Suc n) h a =
     Section (o_title (h ! a)) (o_level (h ! a)) (o_content (h ! a)) (o_path (h ! a))
       (o_line_number (h ! a)) (o_code_blocks (h ! a))
       (map (read_section n h) (o_subsections (h ! a)))"

fun flatten_sections :: "Section list \<Rightarrow> Section list" where
  "flatten_sections [] = []"
| "flatten_sections (Section t l c p n cbs subs # ss) =
     Section t l c p n cbs subs # flatten_sections subs @ flatten_sections ss"

subsection \<open>API entries\<close>

definition isword :: "char \<Rightarrow> bool" where
  "isword c =
     (c \<in> set (''abcdefghijklmnopqrstuvwxyz'' @ ''ABCDEFGHIJKLMNOPQRSTUVWXYZ'' @
                ''0123456789_''))"

text \<open>
  \<open>re.search(r'Creating a (\w+)|class (\w+)', title)\<close>: the leftmost position where one of
  the alternatives matches, the first alternative tried first; the result is
  \<open>group(1) or group(2)\<close>.
\<close>

definition class_match_at :: "string \<Rightarrow> string option" where
  "class_match_at s =
     (let w1 = takeWhile isword (drop 11 s); w2 = takeWhile isword (drop 6 s)
      in if prefix ''Creating a '' s \<and> w1 \<noteq> [] then Some w1
         else if prefix ''class '' s \<and> w2 \<noteq> [] then Some w2
         else None)"

fun class_search :: "string \<Rightarrow> string option" where
  "class_search [] = None"
| "class_search (c # cs) =
     (case class_match_at (c # cs) of Some w \<Rightarrow> Some w | None \<Rightarrow> class_search cs)"

definition api_entry_step :: "(string, APIEntry) dict \<Rightarrow> Section \<Rightarrow> (string, APIEntry) dict" where
  "api_entry_step d s =
     (if sublist ''class'' (lower (title s)) \<or> sublist ''Creating a'' (title s) then
        (case class_search (title s) of
           Some class_name \<Rightarrow>
             dict_set d class_name
               \<lparr>name = class_name, entry_type = ''class'',
                description = (case split_nl (content s) of l # _ \<Rightarrow> l | [] \<Rightarrow> []),
                parameters = [], returns = None, examples = [],
                section_path = path s\<rparr>
         | None \<Rightarrow> d)
      else d)"

definition extract_api_entries :: "Section list \<Rightarrow> (string, APIEntry) dict" where
  "extract_api_entries secs = foldl api_entry_step [] (flatten_sections secs)"

subsection \<open>parse_document\<close>

definition parse_document :: "string \<Rightarrow> py_error + ParsedDoc" where
  "parse_document text =
     (case parse_loop (split_nl text) 0 init_state of
        Inl e \<Rightarrow> Inl e
      | Inr st \<Rightarrow>
          (let secs = map (read_section (length (heap st)) (heap st)) (p_sections st)
           in Inr \<lparr>sections = secs,
                   sections_by_path =
                     foldl (\<lambda>d s. dict_set d (path s) s) [] (flatten_sections secs),
                   all_code_blocks = p_code_blocks st,
                   api_entries = extract_api_entries secs\<rparr>))"

section \<open>Queries\<close>

subsection \<open>ParsedDoc.search (models.py)\<close>

record search_result =
  r_title :: string
  r_path :: string
  r_preview :: string
  r_type :: string

definition search_entry :: "Section \<Rightarrow> search_result" where
  "search_entry s =
     \<lparr>r_title = title s, r_path = path s,
      r_preview = (if 200 < length (content s) then take 200 (content s) @ ''...''
                   else content s),
      r_type = ''section''\<rparr>"

definition search_match :: "string \<Rightarrow> Section \<Rightarrow> bool" where
  "search_match query_lower s =
     (sublist query_lower (lower (title s)) \<or> sublist query_lower (lower (content s)))"

fun search_loop :: "string \<Rightarrow> int \<Rightarrow> Section list \<Rightarrow> search_result list \<Rightarrow> search_result list" where
  "search_loop query_lower max_results [] results = results"
| "search_loop query_lower max_results (s # ss) results =
     (if search_match query_lower s then
        (let results' = results @ [search_entry s]
         in if max_results \<le> int (length results') then results'
            else search_loop query_lower max_results ss results')
      else search_loop query_lower max_results ss results)"

definition search :: "ParsedDoc \<Rightarrow> string \<Rightarrow> int \<Rightarrow> search_result list" where
  "search doc query max_results = search_loop (lower query) max_results (sections doc) []"

subsection \<open>Tools (server.py)\<close>


definition similar_paths :: "ParsedDoc \<Rightarrow> string \<Rightarrow> string list" where
  "similar_paths doc p =
     filter (\<lambda>k. sublist (lower p) (lower k)) (dict_keys (sections_by_path doc))"

definition get_section :: "ParsedDoc option \<Rightarrow> string \<Rightarrow> string" where
  "get_section pd p =
     (case pd of
        None \<Rightarrow> ''Documentation not loaded''
      | Some doc \<Rightarrow>
          (case dict_get (sections_by_path doc) p of
             None \<Rightarrow>
               (if similar_paths doc p \<noteq> [] then
                  ''Section not found. Did you mean one of these?'' @ [NL] @
                  join [NL] (map (\<lambda>k. ''- '' @ k) (take 5 (similar_paths doc p)))
                else ''Section not found: '' @ p)
           | Some s \<Rightarrow> get_full_content s True))"





text \<open>
  The line loop of \<open>get_api_info\<close>, with its \<open>capturing\<close> flag and the lines collected
  so far; \<open>break\<close> returns what has been collected.
\<close>

fun method_loop :: "string \<Rightarrow> string list \<Rightarrow> bool \<Rightarrow> string list \<Rightarrow> string list" where
  "method_loop method_lower [] capturing method_section = method_section"
| "method_loop method_lower (line # ls) capturing method_section =
     (if sublist method_lower (lower line) \<and> (sublist ''##'' line \<or> sublist ''###'' line)
      then method_loop method_lower ls True (method_section @ [line])
      else if capturing \<and> prefix ''#'' (strip line) then method_section
      else method_loop method_lower ls capturing
             (if capturing then method_section @ [line] else method_section))"

definition section_api_text :: "Section \<Rightarrow> string option \<Rightarrow> string" where
  "section_api_text s method_name =
     (let text = get_full_content s True
      in case method_name of
           None \<Rightarrow> text
         | Some m \<Rightarrow>
             if m \<noteq> [] then
               (let method_section = method_loop (lower m) (split_nl text) False []
                in if method_section \<noteq> [] then join [NL] method_section else text)
             else text)"

definition get_api_info :: "ParsedDoc option \<Rightarrow> string \<Rightarrow> string option \<Rightarrow> string" where
  "get_api_info pd class_name method_name =
     (case pd of
        None \<Rightarrow> ''Documentation not loaded''
      | Some doc \<Rightarrow>
          (case dict_get (api_entries doc) class_name of
             None \<Rightarrow>
               (case find (\<lambda>s. sublist (lower class_name) (lower (title s)))
                       (dict_values (sections_by_path doc)) of
                  Some s \<Rightarrow> section_api_text s method_name
                | None \<Rightarrow>
                    ''No API documentation found for '' @ [CHR 0x27] @ class_name @ [CHR 0x27])
           | Some e \<Rightarrow>
               ''# '' @ name e @ [NL, NL] @ ''Type: '' @ entry_type e @ [NL, NL] @
               description e @ [NL, NL] @
               (if section_path e \<noteq> [] then
                  (case dict_get (sections_by_path doc) (section_path e) of
                     Some s \<Rightarrow> get_full_content s True
                   | None \<Rightarrow> [])
                else [])))"

section \<open>Predicates and example documents of the statements\<close>

subsection \<open>Invariants of the parser and of the section forest\<close>

text \<open>
  Well-formedness of a parser state: the stack and the root list hold allocated addresses,
  and every child is allocated after its owner and has a strictly greater level.
\<close>

definition heap_inv :: "parser_state \<Rightarrow> bool" where
  "heap_inv st =
     ((\<forall>a \<in> set (stack st). a < length (heap st)) \<and>
      (\<forall>a \<in> set (p_sections st). a < length (heap st)) \<and>
      (\<forall>p < length (heap st). \<forall>c \<in> set (o_subsections (heap st ! p)).
          p < c \<and> c < length (heap st) \<and>
          level_value (o_level (heap st ! p)) < level_value (o_level (heap st ! c))))"

text \<open>
  The level invariant of the section forest: every child has a strictly greater level
  than the section that owns it, at every depth.
\<close>

fun levels_ok :: "Section \<Rightarrow> bool" where
  "levels_ok (Section t l c p n cbs subs) =
     list_all (\<lambda>s. level_value l < level_value (level s) \<and> levels_ok s) subs"

text \<open>The nesting depth of a section: 1 for a section without subsections.\<close>

fun depth :: "Section \<Rightarrow> nat" where
  "depth (Section t l c p n cbs subs) = Suc (foldr max (map depth subs) 0)"

text \<open>All code blocks of a section and of the sections nested in it.\<close>

fun section_code_blocks :: "Section \<Rightarrow> CodeBlock list" where
  "section_code_blocks (Section t l c p n cbs subs) =
     cbs @ concat (map section_code_blocks subs)"

text \<open>A fence opened at line \<open>k\<close> is closed when a later line is a closing fence.\<close>

definition closed_after :: "string list \<Rightarrow> nat \<Rightarrow> bool" where
  "closed_after lines k = list_ex (\<lambda>l. strip l = ''```'') (drop (Suc k) lines)"

text \<open>
  Code blocks of a parser state: every block of the global list starts at a closed fence,
  and every block attached to a section is in the global list.
\<close>

definition cb_inv :: "string list \<Rightarrow> parser_state \<Rightarrow> bool" where
  "cb_inv lines st =
     (list_all (\<lambda>b. closed_after lines (cb_line_number b)) (p_code_blocks st) \<and>
      set (concat (map o_code_blocks (heap st))) \<subseteq> set (p_code_blocks st))"

subsection \<open>Selections written as list functions\<close>


text \<open>
  The line test that starts a run in \<open>get_api_info\<close>, and the run of lines that its
  loop keeps: from the first such line up to the next line that begins with \<open>#\<close> when
  stripped and is not itself such a line.
\<close>

definition method_line :: "string \<Rightarrow> string \<Rightarrow> bool" where
  "method_line method_lower line =
     (sublist method_lower (lower line) \<and> (sublist ''##'' line \<or> sublist ''###'' line))"

definition method_run :: "string \<Rightarrow> string list \<Rightarrow> string list" where
  "method_run method_lower lines =
     (case dropWhile (\<lambda>l. \<not> method_line method_lower l) lines of
        [] \<Rightarrow> []
      | l # ls \<Rightarrow>
          l # takeWhile (\<lambda>x. method_line method_lower x \<or> \<not> prefix ''#'' (strip x)) ls)"

text \<open>
  The run as the specification words it, for comparison with the loop: it ends just
  before the next header line.
\<close>

definition claimed_method_run :: "string \<Rightarrow> string list \<Rightarrow> string list" where
  "claimed_method_run method_lower lines =
     (case dropWhile (\<lambda>l. \<not> method_line method_lower l) lines of
        [] \<Rightarrow> []
      | l # ls \<Rightarrow> l # takeWhile (\<lambda>x. \<not> prefix ''#'' (strip x)) ls)"

subsection \<open>Example documents\<close>

definition doc_preview_example :: ParsedDoc where
  "doc_preview_example =
     \<lparr>sections =
        [Section ''Setup'' MAIN (replicate 200 (CHR ''x'')) ''Setup'' 0 [] [],
         Section ''Set up again'' MAIN (replicate 201 (CHR ''x'')) ''Set up again'' 4 [] []],
      sections_by_path = [], all_code_blocks = [], api_entries = []\<rparr>"

definition doc_search_example :: ParsedDoc where
  "doc_search_example =
     \<lparr>sections =
        [Section ''Intro'' MAIN ''hello'' ''Intro'' 0 []
           [Section ''Setup steps'' SUB ''x'' ''Intro/Setup steps'' 2 [] []],
         Section ''Setup'' MAIN ''run it'' ''Setup'' 4 [] [],
         Section ''Usage'' MAIN ''after SETUP'' ''Usage'' 6 [] [],
         Section ''Reset up'' MAIN [] ''Reset up'' 8 [] []],
      sections_by_path = [], all_code_blocks = [], api_entries = []\<rparr>"


definition doc_paths_example :: ParsedDoc where
  "doc_paths_example =
     \<lparr>sections = [],
      sections_by_path =
        [(''Foo'', Section ''Foo'' MAIN [] ''Foo'' 0 [] []),
         (''Foo/Barbaz'', Section ''Barbaz'' SUB [] ''Foo/Barbaz'' 1 [] []),
         (''Other'', Section ''Other'' MAIN [] ''Other'' 2 [] []),
         (''Other/Foo/Bar'', Section ''Bar'' DETAIL [] ''Other/Foo/Bar'' 3 [] [])],
      all_code_blocks = [], api_entries = []\<rparr>"

definition widget_section :: Section where
  "widget_section =
     Section ''Widget'' MAIN [] ''Widget'' 0 []
       [Section ''run'' SUB ''a'' ''Widget/run'' 1 [] [],
        Section ''run fast'' SUB ''b'' ''Widget/run fast'' 3 [] [],
        Section ''stop'' SUB ''c'' ''Widget/stop'' 5 [] []]"

definition doc_api_example :: ParsedDoc where
  "doc_api_example =
     \<lparr>sections = [widget_section],
      sections_by_path = [(''Widget'', widget_section)],
      all_code_blocks = [], api_entries = []\<rparr>"

definition text_siblings :: string where
  "text_siblings = join [NL] [''# A'', ''## B'', ''## C'', ''# D'']"

definition text_unclosed :: string where
  "text_unclosed =
     join [NL] [''# A'', ''```py'', ''x = 1'', ''```'', ''## B'', ''```js'', ''y'']"

definition text_deep :: string where
  "text_deep = join [NL] [''# A'', ''#### deep'', ''## B'', ''### C'', ''##### x'']"

definition text_fenced_deep :: string where
  "text_fenced_deep = join [NL] [''# A'', ''```'', ''#### x'', ''```'']"

definition state_open_A :: parser_state where
  "state_open_A =
     \<lparr>heap = [\<lparr>o_title = ''A'', o_level = MAIN, o_content = [], o_path = ''A'',
               o_line_number = 0, o_code_blocks = [], o_subsections = []\<rparr>],
      p_sections = [0], p_code_blocks = [], stack = [0]\<rparr>"

section \<open>Evaluation of string tests\<close>

lemmas string_eval = lower_def lower_char_def sublist_code

section \<open>Properties of search\<close>

text \<open>
  The loop collects the entries of the matching top-level sections in order. Its cutoff
  is tested after an entry has been appended, so it keeps \<open>max 1 max_results\<close> entries
  at most.
\<close>

lemma search_loop_take:
  "search_loop ql m ss results =
     results @ take (nat (max 1 (m - int (length results))))
                 (map search_entry (filter (search_match ql) ss))"
proof (induction ss arbitrary: results)
  case Nil
  then show ?case by simp
next
  case (Cons s ss)
  show ?case
  proof (cases "search_match ql s")
    case False
    then show ?thesis using Cons.IH [of results] by simp
  next
    case True
    show ?thesis
    proof (cases "m \<le> int (length results) + 1")
      case True
      then have "nat (max 1 (m - int (length results))) = Suc 0"
        by arith
      with True \<open>search_match ql s\<close> show ?thesis by (simp add: Let_def)
    next
      case False
      define k where "k = nat (m - int (length results) - 1)"
      define rest where "rest = map search_entry (filter (search_match ql) ss)"
      from False have n: "nat (max 1 (m - int (length results))) = Suc k"
        unfolding k_def by arith
      from False have n': "nat (max 1 (m - int (length (results @ [search_entry s])))) = k"
        unfolding k_def by simp
      have "search_loop ql m ss (results @ [search_entry s]) =
              (results @ [search_entry s]) @ take k rest"
        unfolding rest_def using Cons.IH [of "results @ [search_entry s]"] n' by simp
      moreover have "search_loop ql m (s # ss) results =
              search_loop ql m ss (results @ [search_entry s])"
        using False \<open>search_match ql s\<close> by (simp add: Let_def)
      moreover have "map search_entry (filter (search_match ql) (s # ss)) = search_entry s # rest"
        unfolding rest_def using \<open>search_match ql s\<close> by simp
      ultimately show ?thesis
        by (simp only: n take_Suc_Cons append_Cons append_Nil append_assoc)
    qed
  qed
qed

lemma search_eq:
  "search doc q m =
     take (nat (max 1 m)) (map search_entry (filter (search_match (lower q)) (sections doc)))"
  by (simp add: search_def search_loop_take)

lemma find_Some_filter:
  "find P xs = Some x \<Longrightarrow> \<exists>rest. filter P xs = x # rest"
  by (induction xs) (auto split: if_splits)

lemma search_match_eq:
  "search_match ql =
     (\<lambda>s. sublist ql (lower (title s)) \<or> sublist ql (lower (content s)))"
  by (rule ext) (simp add: search_match_def)

text \<open>
  Claim C4. The \<open>k\<close>-th result of \<open>search\<close> is the entry of the \<open>k\<close>-th matching top-level
  section \<open>s\<close>: it carries the title and the path of \<open>s\<close>; when the content of \<open>s\<close> is
  exactly 201 characters long the preview is its first 200 characters followed by the
  three characters \<open>...\<close>, and when it is exactly 200 characters long the preview is the
  content, with nothing appended.
\<close>

theorem search_preview_boundary:
  assumes "k < length (search doc q m)"
    and "s = filter (\<lambda>s. sublist (lower q) (lower (title s)) \<or>
                          sublist (lower q) (lower (content s))) (sections doc) ! k"
  shows "r_title (search doc q m ! k) = title s \<and> r_path (search doc q m ! k) = path s \<and>
         (length (content s) = 201 \<longrightarrow>
            r_preview (search doc q m ! k) = take 200 (content s) @ ''...'') \<and>
         (length (content s) = 200 \<longrightarrow> r_preview (search doc q m ! k) = content s)"
proof -
  let ?ms = "filter (search_match (lower q)) (sections doc)"
  have s: "s = ?ms ! k"
    using assms(2) unfolding search_match_eq by simp
  from assms(1) have k: "k < length ?ms" "k < nat (max 1 m)"
    by (simp_all add: search_eq)
  then have "search doc q m ! k = search_entry s"
    by (simp add: search_eq s)
  then show ?thesis
    by (simp add: search_entry_def)
qed

text \<open>
  Witness for C4: a section of 200 characters and a section of 201 characters, both
  matching the query by their title.
\<close>

theorem search_preview_boundary_witness:
  "r_preview (search doc_preview_example ''SET'' 5 ! 0) = replicate 200 (CHR ''x'') \<and>
   r_preview (search doc_preview_example ''SET'' 5 ! 1) = replicate 200 (CHR ''x'') @ ''...''"
proof -
  have f: "filter (\<lambda>s. sublist (lower ''SET'') (lower (title s)) \<or>
                          sublist (lower ''SET'') (lower (content s)))
             (sections doc_preview_example)
           = [Section ''Setup'' MAIN (replicate 200 (CHR ''x'')) ''Setup'' 0 [] [],
              Section ''Set up again'' MAIN (replicate 201 (CHR ''x'')) ''Set up again'' 4 [] []]"
    by (simp add: doc_preview_example_def string_eval)
  have len: "length (search doc_preview_example ''SET'' 5) = 2"
    by (simp add: search_eq search_match_eq f)
  have k0: "0 < length (search doc_preview_example ''SET'' 5)"
    and k1: "1 < length (search doc_preview_example ''SET'' 5)"
    by (simp_all add: len)
  show ?thesis
    using search_preview_boundary [OF k0 refl] search_preview_boundary [OF k1 refl]
    by (simp add: f)
qed

text \<open>
  Claim C6, as stated, promises that collecting stops as soon as \<open>max_results\<close> matches
  are gathered. With \<open>max_results = 0\<close> that many matches are gathered before the first
  section is visited, yet the search returns the first matching section.
\<close>

theorem search_limit_zero_counterexample:
  "search doc_search_example ''SET'' 0 =
     [search_entry (Section ''Setup'' MAIN ''run it'' ''Setup'' 4 [] [])] \<and>
   \<not> int (length (search doc_search_example ''SET'' 0)) \<le> 0"
  by (simp add: search_eq search_match_eq doc_search_example_def string_eval)

text \<open>
  Claim C6, amended: for \<open>max_results \<ge> 1\<close>, \<open>search\<close> returns the entries of the first
  \<open>max_results\<close> top-level sections, in document order, whose title or content contains
  the query as a case-insensitive substring. Only the list of top-level sections is
  visited and only a section's own title and content are tested, so a subsection is
  never matched on its own; the result is a list, empty when no top-level section
  matches.
\<close>

theorem search_prefix_of_matches:
  assumes "1 \<le> max_results"
  shows "search doc q max_results =
           take (nat max_results)
             (map search_entry
                (filter (\<lambda>s. sublist (lower q) (lower (title s)) \<or>
                              sublist (lower q) (lower (content s))) (sections doc)))"
proof -
  from assms have "nat (max 1 max_results) = nat max_results"
    by simp
  then show ?thesis
    unfolding search_match_eq [symmetric] by (simp add: search_eq)
qed

text \<open>
  Witness for C6: the subsection \<open>Setup steps\<close> of \<open>Intro\<close> is not found, the sections
  \<open>Setup\<close> and \<open>Usage\<close> are found in order, the section \<open>Reset up\<close> is cut off by
  \<open>max_results = 2\<close>, and a query without match gives the empty list.
\<close>

theorem search_prefix_of_matches_witness:
  "search doc_search_example ''SET'' 1 =
     [search_entry (Section ''Setup'' MAIN ''run it'' ''Setup'' 4 [] [])] \<and>
   search doc_search_example ''SET'' 2 =
     [search_entry (Section ''Setup'' MAIN ''run it'' ''Setup'' 4 [] []),
      search_entry (Section ''Usage'' MAIN ''after SETUP'' ''Usage'' 6 [] [])] \<and>
   search doc_search_example ''absent'' 2 = []"
proof -
  have "(1::int) \<le> 1" and "(1::int) \<le> 2"
    by simp_all
  then show ?thesis
    using search_prefix_of_matches [of 1 doc_search_example "''SET''"]
      search_prefix_of_matches [of 2 doc_search_example "''SET''"]
      search_prefix_of_matches [of 2 doc_search_example "''absent''"]
    by (simp add: doc_search_example_def string_eval)
qed

text \<open>
  Claim C10. When \<open>max_results\<close> is zero or negative and some top-level section matches
  the query, the result of \<open>search\<close> has exactly one entry, that of the first matching
  section: the cutoff is tested only after an entry has been appended.
\<close>

theorem search_first_match_kept:
  assumes "max_results \<le> 0"
    and "find (\<lambda>s. sublist (lower q) (lower (title s)) \<or>
                     sublist (lower q) (lower (content s))) (sections doc) = Some s"
  shows "search doc q max_results = [search_entry s]"
proof -
  from assms(2) have "find (search_match (lower q)) (sections doc) = Some s"
    unfolding search_match_eq .
  from find_Some_filter [OF this]
  obtain rest where "filter (search_match (lower q)) (sections doc) = s # rest" ..
  moreover from assms(1) have "nat (max 1 max_results) = Suc 0"
    by simp
  ultimately show ?thesis
    by (simp add: search_eq)
qed

text \<open>Witness for C10, at \<open>max_results = 0\<close> and at \<open>max_results = -3\<close>.\<close>

theorem search_first_match_kept_witness:
  "search doc_search_example ''SET'' 0 =
     [\<lparr>r_title = ''Setup'', r_path = ''Setup'', r_preview = ''run it'',
       r_type = ''section''\<rparr>] \<and>
   search doc_search_example ''SET'' (- 3) =
     [\<lparr>r_title = ''Setup'', r_path = ''Setup'', r_preview = ''run it'',
       r_type = ''section''\<rparr>]"
proof -
  have f: "find (\<lambda>s. sublist (lower ''SET'') (lower (title s)) \<or>
                       sublist (lower ''SET'') (lower (content s)))
             (sections doc_search_example)
           = Some (Section ''Setup'' MAIN ''run it'' ''Setup'' 4 [] [])"
    by (simp add: doc_search_example_def string_eval)
  have "(0::int) \<le> 0" and "(- 3::int) \<le> 0"
    by simp_all
  then show ?thesis
    using search_first_match_kept [OF _ f, of 0] search_first_match_kept [OF _ f, of "- 3"]
    by (simp add: search_entry_def)
qed

section \<open>Properties of the tools\<close>

subsection \<open>get_code_examples\<close>





subsection \<open>get_section\<close>

text \<open>
  Claim C8. When \<open>path\<close> is not a key of the path map, \<open>get_section\<close> returns a
  suggestion text listing at most 5 paths; each is a key of the map that contains the
  requested path as a case-insensitive substring and differs from it, so no content of
  an exact match is returned. When no key contains it the result is the not-found text.
\<close>

theorem get_section_miss:
  assumes "dict_get (sections_by_path doc) p = None"
  shows "get_section (Some doc) p =
           (if similar_paths doc p = [] then ''Section not found: '' @ p
            else ''Section not found. Did you mean one of these?'' @ [NL] @
                 join [NL] (map (\<lambda>k. ''- '' @ k) (take 5 (similar_paths doc p)))) \<and>
         length (take 5 (similar_paths doc p)) \<le> 5 \<and>
         (\<forall>k \<in> set (take 5 (similar_paths doc p)).
            k \<in> set (dict_keys (sections_by_path doc)) \<and> sublist (lower p) (lower k) \<and> k \<noteq> p) \<and>
         (similar_paths doc p = [] \<longleftrightarrow>
            (\<forall>k \<in> set (dict_keys (sections_by_path doc)). \<not> sublist (lower p) (lower k)))"
proof -
  have 1: "get_section (Some doc) p =
           (if similar_paths doc p = [] then ''Section not found: '' @ p
            else ''Section not found. Did you mean one of these?'' @ [NL] @
                 join [NL] (map (\<lambda>k. ''- '' @ k) (take 5 (similar_paths doc p))))"
    using assms by (simp add: get_section_def del: append.simps)
  have notkey: "p \<notin> set (dict_keys (sections_by_path doc))"
    using assms by (simp add: dict_get_def dict_keys_def map_of_eq_None_iff)
  have 3: "\<forall>k \<in> set (take 5 (similar_paths doc p)).
            k \<in> set (dict_keys (sections_by_path doc)) \<and> sublist (lower p) (lower k) \<and> k \<noteq> p"
  proof
    fix k assume "k \<in> set (take 5 (similar_paths doc p))"
    then have "k \<in> set (similar_paths doc p)"
      by (rule in_set_takeD)
    then have "k \<in> set (dict_keys (sections_by_path doc))" "sublist (lower p) (lower k)"
      by (simp_all add: similar_paths_def)
    with notkey show "k \<in> set (dict_keys (sections_by_path doc)) \<and> sublist (lower p) (lower k) \<and> k \<noteq> p"
      by auto
  qed
  have 4: "similar_paths doc p = [] \<longleftrightarrow>
            (\<forall>k \<in> set (dict_keys (sections_by_path doc)). \<not> sublist (lower p) (lower k))"
    by (simp add: similar_paths_def filter_empty_conv)
  show ?thesis
    using 1 3 4 by simp
qed

text \<open>Witness for C8: the example of the specification.\<close>

theorem get_section_miss_witness:
  "get_section (Some doc_paths_example) ''Foo/Bar'' =
     ''Section not found. Did you mean one of these?'' @ [NL] @
     ''- Foo/Barbaz'' @ [NL] @ ''- Other/Foo/Bar''"
proof -
  have "dict_get (sections_by_path doc_paths_example) ''Foo/Bar'' = None"
    by (simp add: doc_paths_example_def dict_get_def)
  from get_section_miss [OF this] show ?thesis
    by (simp add: similar_paths_def dict_keys_def doc_paths_example_def string_eval)
qed

subsection \<open>get_api_info\<close>

lemma method_loop_capturing:
  "method_loop ml lines True acc =
     acc @ takeWhile (\<lambda>x. method_line ml x \<or> \<not> prefix ''#'' (strip x)) lines"
  by (induction lines arbitrary: acc) (auto simp: method_line_def)

lemma method_loop_run:
  "method_loop ml lines False [] = method_run ml lines"
proof (induction lines)
  case Nil
  show ?case by (simp add: method_run_def)
next
  case (Cons l ls)
  show ?case
  proof (cases "method_line ml l")
    case True
    then have "method_loop ml (l # ls) False [] = method_loop ml ls True [l]"
      by (simp add: method_line_def)
    with True show ?thesis
      by (simp add: method_loop_capturing method_run_def)
  next
    case False
    then have "method_loop ml (l # ls) False [] = method_loop ml ls False []"
      by (auto simp: method_line_def)
    with False Cons.IH show ?thesis
      by (simp add: method_run_def)
  qed
qed

text \<open>
  Claim C3, amended. When the class name is resolved by the section-title scan and a
  non-empty method name is given, the result is the run of lines of the rendered content
  that starts at the first line which contains the method name (case-insensitively) and
  a \<open>##\<close> or \<open>###\<close> marker, and ends just before the next line that begins with \<open>#\<close>
  (after stripping) and is not itself a line containing the method name and such a
  marker; if no line starts a run, the full content is returned.
\<close>

theorem get_api_info_method_run:
  assumes "dict_get (api_entries doc) class_name = None"
    and "find (\<lambda>s. sublist (lower class_name) (lower (title s)))
           (dict_values (sections_by_path doc)) = Some s"
    and "m \<noteq> []"
  shows "get_api_info (Some doc) class_name (Some m) =
           (if method_run (lower m) (split_nl (get_full_content s True)) = []
            then get_full_content s True
            else join [NL] (method_run (lower m) (split_nl (get_full_content s True))))"
  using assms by (simp add: get_api_info_def section_api_text_def Let_def method_loop_run)

lemma widget_text:
  "split_nl (get_full_content widget_section True) =
     [''# Widget'', [], [], [], ''## run'', [], ''a'', [], ''## run fast'', [], ''b'', [],
      ''## stop'', [], ''c'']"
  by code_simp

text \<open>Witness for C3: the run for \<open>Run\<close> in the section \<open>Widget\<close>.\<close>

theorem get_api_info_method_run_witness:
  "get_api_info (Some doc_api_example) ''widget'' (Some ''Run'') =
     join [NL] [''## run'', [], ''a'', [], ''## run fast'', [], ''b'', []]"
proof -
  have a: "dict_get (api_entries doc_api_example) ''widget'' = None"
    by (simp add: doc_api_example_def dict_get_def)
  have b: "find (\<lambda>s. sublist (lower ''widget'') (lower (title s)))
             (dict_values (sections_by_path doc_api_example)) = Some widget_section"
    by (simp add: doc_api_example_def dict_values_def widget_section_def string_eval)
  have c: "''Run'' \<noteq> []"
    by simp
  have r: "method_run (lower ''Run'') (split_nl (get_full_content widget_section True)) =
           [''## run'', [], ''a'', [], ''## run fast'', [], ''b'', []]"
    unfolding widget_text
    by (simp add: method_run_def method_line_def strip_def isspace_def string_eval)
  from get_api_info_method_run [OF a b c] show ?thesis
    by (simp only: r) simp
qed

text \<open>
  Claim C3, as stated, ends the run just before the next header line. In the section
  \<open>Widget\<close> the header \<open>## run fast\<close> follows the header \<open>## run\<close>; it contains the method
  name, so the loop keeps capturing and the result runs on to the header \<open>## stop\<close>.
\<close>

theorem get_api_info_next_header_counterexample:
  "get_api_info (Some doc_api_example) ''widget'' (Some ''Run'') =
     join [NL] [''## run'', [], ''a'', [], ''## run fast'', [], ''b'', []] \<and>
   join [NL] (claimed_method_run (lower ''Run'')
                (split_nl (get_full_content widget_section True))) =
     join [NL] [''## run'', [], ''a'', []] \<and>
   get_api_info (Some doc_api_example) ''widget'' (Some ''Run'') \<noteq>
     join [NL] (claimed_method_run (lower ''Run'')
                  (split_nl (get_full_content widget_section True)))"
  by code_simp

section \<open>Invariants of the parser\<close>

text \<open>The lines that the parser reads contain no newline character.\<close>

lemma split_nl_no_newline: "l \<in> set (split_nl s) \<Longrightarrow> NL \<notin> set l"
proof (induction s arbitrary: l)
  case Nil
  then show ?case by simp
next
  case (Cons c cs)
  show ?case
  proof (cases "c = NL")
    case True
    with Cons show ?thesis by auto
  next
    case False
    obtain x xs where x: "split_nl cs = x # xs"
      by (cases "split_nl cs") (cases cs, auto split: if_splits list.splits)
    with False Cons.prems have "l = c # x \<or> l \<in> set xs"
      by auto
    with False x Cons.IH [of x] Cons.IH [of l] show ?thesis
      by auto
  qed
qed

lemma heap_invI:
  assumes "\<And>a. a \<in> set (stack st) \<Longrightarrow> a < length (heap st)"
    and "\<And>a. a \<in> set (p_sections st) \<Longrightarrow> a < length (heap st)"
    and "\<And>p c. p < length (heap st) \<Longrightarrow> c \<in> set (o_subsections (heap st ! p)) \<Longrightarrow>
           p < c \<and> c < length (heap st) \<and>
           level_value (o_level (heap st ! p)) < level_value (o_level (heap st ! c))"
  shows "heap_inv st"
  unfolding heap_inv_def using assms by blast

lemma heap_invD:
  assumes "heap_inv st"
  shows "a \<in> set (stack st) \<Longrightarrow> a < length (heap st)"
    and "a \<in> set (p_sections st) \<Longrightarrow> a < length (heap st)"
    and "p < length (heap st) \<Longrightarrow> c \<in> set (o_subsections (heap st ! p)) \<Longrightarrow>
           p < c \<and> c < length (heap st) \<and>
           level_value (o_level (heap st ! p)) < level_value (o_level (heap st ! c))"
  using assms unfolding heap_inv_def by blast+

lemma heap_inv_init: "heap_inv init_state"
  unfolding init_state_def heap_inv_def by simp

lemma heap_inv_update_same:
  assumes lev: "o_level x = o_level (heap st ! a)"
    and sub: "o_subsections x = o_subsections (heap st ! a)"
  shows "heap_inv (st\<lparr>heap := (heap st)[a := x]\<rparr>) = heap_inv st"
proof -
  have L: "o_level ((heap st)[a := x] ! q) = o_level (heap st ! q)" for q
    by (cases "a < length (heap st)") (simp_all add: nth_list_update lev list_update_beyond)
  have S: "o_subsections ((heap st)[a := x] ! q) = o_subsections (heap st ! q)" for q
    by (cases "a < length (heap st)") (simp_all add: nth_list_update sub list_update_beyond)
  show ?thesis
    by (simp add: heap_inv_def L S)
qed

lemma heap_inv_code_blocks_irrelevant:
  "heap_inv (st\<lparr>p_code_blocks := cbs\<rparr>) = heap_inv st"
  by (simp add: heap_inv_def)

lemma heap_inv_append_content: "heap_inv st \<Longrightarrow> heap_inv (append_content line st)"
  unfolding append_content_def Let_def
  by (subst heap_inv_update_same) simp_all

lemma heap_inv_attach_code_block: "heap_inv st \<Longrightarrow> heap_inv (attach_code_block b st)"
proof -
  assume inv: "heap_inv st"
  let ?top = "last (stack st)"
  let ?b = "b\<lparr>context_section := o_path (heap st ! ?top)\<rparr>"
  let ?x = "(heap st ! ?top)\<lparr>o_code_blocks := o_code_blocks (heap st ! ?top) @ [?b]\<rparr>"
  have eq: "attach_code_block b st =
          (st\<lparr>heap := (heap st)[?top := ?x]\<rparr>)\<lparr>p_code_blocks := p_code_blocks st @ [?b]\<rparr>"
    by (simp add: attach_code_block_def Let_def)
  have "heap_inv (st\<lparr>heap := (heap st)[?top := ?x]\<rparr>)"
    using inv by (subst heap_inv_update_same) simp_all
  then show ?thesis
    unfolding eq by (simp only: heap_inv_code_blocks_irrelevant)
qed

lemma set_pop_stack: "a \<in> set (pop_stack h lv stk) \<Longrightarrow> a \<in> set stk"
  unfolding pop_stack_def by (simp only: set_rev) (drule set_dropWhileD, simp)


lemma heap_inv_alloc:
  assumes inv: "heap_inv st" and sub: "o_subsections sec = []"
  shows "heap_inv (st\<lparr>heap := heap st @ [sec]\<rparr>)"
proof (rule heap_invI)
  fix a assume "a \<in> set (stack (st\<lparr>heap := heap st @ [sec]\<rparr>))"
  then have "a < length (heap st)"
    using heap_invD(1) [OF inv, of a] by simp
  then show "a < length (heap (st\<lparr>heap := heap st @ [sec]\<rparr>))"
    by simp
next
  fix a assume "a \<in> set (p_sections (st\<lparr>heap := heap st @ [sec]\<rparr>))"
  then have "a < length (heap st)"
    using heap_invD(2) [OF inv, of a] by simp
  then show "a < length (heap (st\<lparr>heap := heap st @ [sec]\<rparr>))"
    by simp
next
  fix p c
  assume p: "p < length (heap (st\<lparr>heap := heap st @ [sec]\<rparr>))"
    and c: "c \<in> set (o_subsections (heap (st\<lparr>heap := heap st @ [sec]\<rparr>) ! p))"
  have "p < length (heap st)"
  proof (rule ccontr)
    assume "\<not> p < length (heap st)"
    with p have "p = length (heap st)" by simp
    with c sub show False by simp
  qed
  moreover from this c have "c \<in> set (o_subsections (heap st ! p))"
    by (simp add: nth_append)
  ultimately have old: "p < c \<and> c < length (heap st) \<and>
      level_value (o_level (heap st ! p)) < level_value (o_level (heap st ! c))"
    by (rule heap_invD(3) [OF inv])
  with \<open>p < length (heap st)\<close>
  show "p < c \<and> c < length (heap (st\<lparr>heap := heap st @ [sec]\<rparr>)) \<and>
        level_value (o_level (heap (st\<lparr>heap := heap st @ [sec]\<rparr>) ! p))
        < level_value (o_level (heap (st\<lparr>heap := heap st @ [sec]\<rparr>) ! c))"
    by (simp add: nth_append)
qed

lemma heap_inv_root:
  assumes inv: "heap_inv st" and a: "a < length (heap st)"
  shows "heap_inv (st\<lparr>p_sections := p_sections st @ [a]\<rparr>)"
proof (rule heap_invI)
  fix x assume "x \<in> set (stack (st\<lparr>p_sections := p_sections st @ [a]\<rparr>))"
  then show "x < length (heap (st\<lparr>p_sections := p_sections st @ [a]\<rparr>))"
    using heap_invD(1) [OF inv, of x] by simp
next
  fix x assume "x \<in> set (p_sections (st\<lparr>p_sections := p_sections st @ [a]\<rparr>))"
  then have "x \<in> set (p_sections st) \<or> x = a" by auto
  then show "x < length (heap (st\<lparr>p_sections := p_sections st @ [a]\<rparr>))"
    using heap_invD(2) [OF inv, of x] a by auto
next
  fix p c
  assume "p < length (heap (st\<lparr>p_sections := p_sections st @ [a]\<rparr>))"
    and "c \<in> set (o_subsections (heap (st\<lparr>p_sections := p_sections st @ [a]\<rparr>) ! p))"
  then have "p < length (heap st)" "c \<in> set (o_subsections (heap st ! p))"
    by simp_all
  from heap_invD(3) [OF inv this]
  show "p < c \<and> c < length (heap (st\<lparr>p_sections := p_sections st @ [a]\<rparr>)) \<and>
        level_value (o_level (heap (st\<lparr>p_sections := p_sections st @ [a]\<rparr>) ! p))
        < level_value (o_level (heap (st\<lparr>p_sections := p_sections st @ [a]\<rparr>) ! c))"
    by simp
qed

lemma heap_inv_child:
  assumes inv: "heap_inv st" and p: "p < a" and a: "a < length (heap st)"
    and lev: "level_value (o_level (heap st ! p)) < level_value (o_level (heap st ! a))"
  shows "heap_inv (st\<lparr>heap := (heap st)[p := (heap st ! p)
           \<lparr>o_subsections := o_subsections (heap st ! p) @ [a]\<rparr>]\<rparr>)"
    (is "heap_inv ?st'")
proof (rule heap_invI)
  let ?h = "heap st"
  have len: "length (heap ?st') = length ?h" by simp
  have L: "o_level (heap ?st' ! q) = o_level (?h ! q)" for q
    using p a by (simp add: nth_list_update)
  have S: "o_subsections (heap ?st' ! q) =
           (if q = p then o_subsections (?h ! p) @ [a] else o_subsections (?h ! q))" for q
    using p a by (simp add: nth_list_update)
  {
    fix x assume "x \<in> set (stack ?st')"
    then show "x < length (heap ?st')"
      using heap_invD(1) [OF inv, of x] by simp
  next
    fix x assume "x \<in> set (p_sections ?st')"
    then show "x < length (heap ?st')"
      using heap_invD(2) [OF inv, of x] by simp
  next
    fix q c
    assume q: "q < length (heap ?st')" and c: "c \<in> set (o_subsections (heap ?st' ! q))"
    from q have q': "q < length ?h" by simp
    from c have "c \<in> set (o_subsections (?h ! q)) \<or> (q = p \<and> c = a)"
      unfolding S by (auto split: if_splits)
    then have "q < c \<and> c < length ?h \<and>
               level_value (o_level (?h ! q)) < level_value (o_level (?h ! c))"
    proof
      assume "c \<in> set (o_subsections (?h ! q))"
      with q' show ?thesis by (rule heap_invD(3) [OF inv])
    next
      assume "q = p \<and> c = a"
      with p a lev show ?thesis by simp
    qed
    then show "q < c \<and> c < length (heap ?st') \<and>
        level_value (o_level (heap ?st' ! q)) < level_value (o_level (heap ?st' ! c))"
      unfolding L len .
  }
qed


lemma find_SomeD: "find P xs = Some x \<Longrightarrow> x \<in> set xs \<and> P x"
  by (induction xs) (auto split: if_splits)

lemma heap_inv_add_section:
  assumes inv: "heap_inv st" and a: "a < length (heap st)"
    and stk: "\<And>p. p \<in> set (stack st) \<Longrightarrow> p < a"
  shows "heap_inv (add_section_to_hierarchy a st)"
proof (cases "stack st = []")
  case True
  then have "add_section_to_hierarchy a st = st\<lparr>p_sections := p_sections st @ [a]\<rparr>"
    by (simp add: add_section_to_hierarchy_def)
  then show ?thesis
    using heap_inv_root [OF inv a] by simp
next
  case False
  let ?P = "\<lambda>p. level_value (o_level (heap st ! p)) < level_value (o_level (heap st ! a))"
  show ?thesis
  proof (cases "find ?P (rev (stack st))")
    case None
    with False have "add_section_to_hierarchy a st = st\<lparr>p_sections := p_sections st @ [a]\<rparr>"
      by (simp add: add_section_to_hierarchy_def Let_def)
    then show ?thesis
      using heap_inv_root [OF inv a] by simp
  next
    case (Some p)
    from find_SomeD [OF this] have "p \<in> set (rev (stack st))" and lev: "?P p"
      by simp_all
    then have "p < a"
      using stk [of p] by simp
    from heap_inv_child [OF inv this a lev] False Some show ?thesis
      by (simp add: add_section_to_hierarchy_def Let_def)
  qed
qed

lemma length_heap_add_section:
  "length (heap (add_section_to_hierarchy a st)) = length (heap st)"
  by (simp add: add_section_to_hierarchy_def Let_def split: option.splits)

lemma stack_add_section:
  "stack (add_section_to_hierarchy a st) = stack st"
  by (simp add: add_section_to_hierarchy_def Let_def split: option.splits)

lemma heap_inv_set_stack:
  assumes inv: "heap_inv st" and stk: "\<And>a. a \<in> set stk \<Longrightarrow> a < length (heap st)"
  shows "heap_inv (st\<lparr>stack := stk\<rparr>)"
proof (rule heap_invI)
  fix a assume "a \<in> set (stack (st\<lparr>stack := stk\<rparr>))"
  then show "a < length (heap (st\<lparr>stack := stk\<rparr>))"
    using stk [of a] by simp
next
  fix a assume "a \<in> set (p_sections (st\<lparr>stack := stk\<rparr>))"
  then show "a < length (heap (st\<lparr>stack := stk\<rparr>))"
    using heap_invD(2) [OF inv, of a] by simp
next
  fix p c
  assume "p < length (heap (st\<lparr>stack := stk\<rparr>))"
    and "c \<in> set (o_subsections (heap (st\<lparr>stack := stk\<rparr>) ! p))"
  then have "p < length (heap st)" "c \<in> set (o_subsections (heap st ! p))"
    by simp_all
  from heap_invD(3) [OF inv this]
  show "p < c \<and> c < length (heap (st\<lparr>stack := stk\<rparr>)) \<and>
        level_value (o_level (heap (st\<lparr>stack := stk\<rparr>) ! p))
        < level_value (o_level (heap (st\<lparr>stack := stk\<rparr>) ! c))"
    by simp
qed

lemma heap_inv_new_section:
  assumes inv: "heap_inv st"
  shows "heap_inv (new_section i lvl t st)"
proof -
  define sec where "sec = \<lparr>o_title = t, o_level = lvl, o_content = [],
                 o_path = build_path (heap st) (stack st) t, o_line_number = i,
                 o_code_blocks = [], o_subsections = []\<rparr>"
  define a where "a = length (heap st)"
  define st0 where "st0 = st\<lparr>heap := heap st @ [sec]\<rparr>"
  define st1 where "st1 = add_section_to_hierarchy a st0"
  have inv0: "heap_inv st0"
    unfolding st0_def by (rule heap_inv_alloc [OF inv]) (simp add: sec_def)
  have a0: "a < length (heap st0)"
    by (simp add: st0_def a_def)
  have stk0: "p < a" if "p \<in> set (stack st0)" for p
    using that heap_invD(1) [OF inv, of p] by (simp add: st0_def a_def)
  have inv1: "heap_inv st1"
    unfolding st1_def using inv0 a0 stk0 by (rule heap_inv_add_section)
  have len1: "length (heap st1) = Suc a"
    by (simp add: st1_def length_heap_add_section st0_def a_def)
  have stk1: "stack st1 = stack st"
    by (simp add: st1_def stack_add_section st0_def)
  have new: "new_section i lvl t st =
               st1\<lparr>stack := pop_stack (heap st1) (level_value lvl) (stack st1) @ [a]\<rparr>"
    by (simp add: new_section_def Let_def st1_def st0_def sec_def a_def)
  show ?thesis
    unfolding new
  proof (rule heap_inv_set_stack [OF inv1])
    fix x assume "x \<in> set (pop_stack (heap st1) (level_value lvl) (stack st1) @ [a])"
    then have "x \<in> set (stack st) \<or> x = a"
      using set_pop_stack [of x "heap st1" "level_value lvl" "stack st1"] stk1 by auto
    then show "x < length (heap st1)"
      using heap_invD(1) [OF inv, of x] len1 by (auto simp: a_def)
  qed
qed

lemma heap_inv_step:
  assumes inv: "heap_inv st" and s: "step lines i st = Inr (st', i')"
  shows "heap_inv st'"
proof (cases "header_match (lines ! i)")
  case (Some r)
  obtain n g where r: "r = (n, g)" by (cases r)
  from s Some r obtain lvl where "st' = new_section i lvl (strip g) st"
    by (auto simp: step_def Let_def split: sum.splits)
  then show ?thesis
    using heap_inv_new_section [OF inv] by simp
next
  case None
  from s None have "st' = st \<or> st' = append_content (lines ! i) st \<or>
      (\<exists>b. st' = attach_code_block b st)"
    by (auto simp: step_def Let_def split: if_splits prod.splits option.splits)
  then show ?thesis
    using inv heap_inv_append_content [OF inv] heap_inv_attach_code_block [OF inv]
    by blast
qed

lemma parse_loop_invariant:
  assumes "parse_loop lines i st = Inr st'"
    and "P st"
    and "\<And>i st st' i'. i < length lines \<Longrightarrow> P st \<Longrightarrow> step lines i st = Inr (st', i') \<Longrightarrow> P st'"
  shows "P st'"
  using assms
proof (induction lines i st rule: parse_loop.induct)
  case (1 lines i st)
  show ?case
  proof (cases "i < length lines")
    case False
    with "1.prems"(1,2) show ?thesis
      by (simp add: parse_loop.simps)
  next
    case True
    with "1.prems"(1) obtain st1 i1 where
      s: "step lines i st = Inr (st1, i1)" and r: "parse_loop lines (i1 + 1) st1 = Inr st'"
      by (subst (asm) parse_loop.simps) (auto split: sum.splits)
    from "1.prems"(3) [OF True "1.prems"(2) s] have "P st1" .
    from "1.IH" [OF True s refl r this "1.prems"(3)] show ?thesis .
  qed
qed

lemma header_match_level:
  "header_match line = Some (n, g) \<Longrightarrow> 1 \<le> n \<and> n \<le> 3"
  by (auto simp: header_match_def Let_def Suc_le_eq split: if_splits)

lemma step_total: "\<exists>st' i'. step lines i st = Inr (st', i')"
proof (cases "header_match (lines ! i)")
  case None
  then show ?thesis
    by (auto simp: step_def Let_def split: prod.splits option.splits)
next
  case (Some r)
  obtain n g where r: "r = (n, g)" by (cases r)
  with Some header_match_level have "n = 1 \<or> n = 2 \<or> n = 3"
    by fastforce
  then have "\<exists>lvl. SectionLevel_of n = Inr lvl"
    by (auto simp: SectionLevel_of_def)
  with Some r show ?thesis
    by (auto simp: step_def Let_def)
qed

lemma parse_loop_total: "\<exists>st'. parse_loop lines i st = Inr st'"
proof (induction lines i st rule: parse_loop.induct)
  case (1 lines i st)
  show ?case
  proof (cases "i < length lines")
    case False
    then show ?thesis by (simp add: parse_loop.simps)
  next
    case True
    from step_total obtain st1 i1 where s: "step lines i st = Inr (st1, i1)"
      by blast
    from "1.IH" [OF True s refl] obtain st' where "parse_loop lines (i1 + 1) st1 = Inr st'"
      by blast
    with True s show ?thesis
      by (subst parse_loop.simps) simp
  qed
qed

subsection \<open>Reading the heap\<close>

lemma level_read_section: "level (read_section n h a) = o_level (h ! a)"
  by (cases n) simp_all

lemma levels_ok_read_section:
  assumes inv: "heap_inv st"
  shows "a < length (heap st) \<Longrightarrow> levels_ok (read_section n (heap st) a)"
proof (induction n arbitrary: a)
  case 0
  show ?case by simp
next
  case (Suc n)
  have "level_value (o_level (heap st ! a)) < level_value (level (read_section n (heap st) c)) \<and>
        levels_ok (read_section n (heap st) c)"
    if "c \<in> set (o_subsections (heap st ! a))" for c
  proof -
    from heap_invD(3) [OF inv Suc.prems that]
    have "c < length (heap st)"
      and "level_value (o_level (heap st ! a)) < level_value (o_level (heap st ! c))"
      by simp_all
    with Suc.IH [of c] show ?thesis
      by (simp add: level_read_section)
  qed
  then show ?case
    by (simp add: list_all_iff)
qed

text \<open>
  The heap size is enough fuel: once the fuel covers the addresses after \<open>a\<close>, more fuel
  reads the same section.
\<close>

lemma read_section_fuel:
  assumes inv: "heap_inv st"
  shows "a < length (heap st) \<Longrightarrow> length (heap st) - a \<le> n \<Longrightarrow>
         read_section (Suc n) (heap st) a = read_section n (heap st) a"
proof (induction n arbitrary: a)
  case 0
  then show ?case by simp
next
  case (Suc n)
  have "read_section (Suc n) (heap st) c = read_section n (heap st) c"
    if "c \<in> set (o_subsections (heap st ! a))" for c
  proof -
    from heap_invD(3) [OF inv Suc.prems(1) that]
    have "c < length (heap st)" and "a < c"
      by simp_all
    with Suc.prems(2) have "length (heap st) - c \<le> n"
      by simp
    with \<open>c < length (heap st)\<close> show ?thesis
      by (rule Suc.IH)
  qed
  then have "map (read_section (Suc n) (heap st)) (o_subsections (heap st ! a)) =
             map (read_section n (heap st)) (o_subsections (heap st ! a))"
    by simp
  then show ?case
    by simp
qed

subsection \<open>The parsed document\<close>

lemma parse_loop_heap_inv:
  assumes "parse_loop lines i st = Inr st'" and "heap_inv st"
  shows "heap_inv st'"
  using assms(1,2)
proof (rule parse_loop_invariant)
  fix i st st' i'
  assume "heap_inv st" and "step lines i st = Inr (st', i')"
  then show "heap_inv st'" by (rule heap_inv_step)
qed

lemma parse_document_sections:
  "\<exists>st. parse_loop (split_nl src) 0 init_state = Inr st \<and> heap_inv st \<and>
        (\<exists>doc. parse_document src = Inr doc \<and>
           sections doc = map (read_section (length (heap st)) (heap st)) (p_sections st) \<and>
           all_code_blocks doc = p_code_blocks st)"
proof -
  from parse_loop_total obtain st where st: "parse_loop (split_nl src) 0 init_state = Inr st"
    by blast
  from parse_loop_heap_inv [OF st heap_inv_init] have "heap_inv st" .
  with st show ?thesis
    by (simp add: parse_document_def Let_def)
qed

lemma foldr_max_le: "(\<And>x. x \<in> set xs \<Longrightarrow> x \<le> k) \<Longrightarrow> foldr max xs (0::nat) \<le> k"
  by (induction xs) simp_all

lemma level_value_bounds: "1 \<le> level_value l \<and> level_value l \<le> 3"
  by (cases l) simp_all

lemma depth_levels_ok: "levels_ok s \<Longrightarrow> depth s + level_value (level s) \<le> 4"
proof (induction s)
  case (Section t l c p n cbs subs)
  have "d \<le> 3 - level_value l" if "d \<in> set (map depth subs)" for d
  proof -
    from that obtain x where x: "x \<in> set subs" "d = depth x"
      by auto
    with Section.prems have "level_value l < level_value (level x)" "levels_ok x"
      by (simp_all add: list_all_iff)
    with Section.IH [OF x(1)] x(2) show ?thesis
      by simp
  qed
  then have "foldr max (map depth subs) 0 \<le> 3 - level_value l"
    by (rule foldr_max_le)
  with level_value_bounds [of l] show ?case
    by simp arith
qed

text \<open>
  Claim C2. Parsing returns a document, and in its section forest every child section has
  a strictly greater level than the section that owns it in its subsections list.
\<close>

theorem parsed_levels_increase:
  "\<exists>doc. parse_document src = Inr doc \<and> list_all levels_ok (sections doc)"
proof -
  from parse_document_sections [of src] obtain st doc where
    inv: "heap_inv st" and doc: "parse_document src = Inr doc"
    and secs: "sections doc = map (read_section (length (heap st)) (heap st)) (p_sections st)"
    by blast
  have "levels_ok (read_section (length (heap st)) (heap st) a)" if "a \<in> set (p_sections st)" for a
    using levels_ok_read_section [OF inv heap_invD(2) [OF inv that]] .
  then have "list_all levels_ok (sections doc)"
    by (simp add: secs list_all_iff)
  with doc show ?thesis
    by blast
qed

lemma parse_text_siblings:
  "parse_document text_siblings =
     Inr \<lparr>sections =
            [Section ''A'' MAIN [] ''A'' 0 []
               [Section ''B'' SUB [] ''A/B'' 1 [] [],
                Section ''C'' SUB [] ''A/B/C'' 2 [] []],
             Section ''D'' MAIN [] ''A/C/D'' 3 [] []],
          sections_by_path =
            [(''A'', Section ''A'' MAIN [] ''A'' 0 []
               [Section ''B'' SUB [] ''A/B'' 1 [] [],
                Section ''C'' SUB [] ''A/B/C'' 2 [] []]),
             (''A/B'', Section ''B'' SUB [] ''A/B'' 1 [] []),
             (''A/B/C'', Section ''C'' SUB [] ''A/B/C'' 2 [] []),
             (''A/C/D'', Section ''D'' MAIN [] ''A/C/D'' 3 [] [])],
          all_code_blocks = [], api_entries = []\<rparr>"
  by code_simp

text \<open>Witness for C2: the forest of a document with two sibling subsections.\<close>

theorem parsed_levels_increase_witness:
  "(case parse_document text_siblings of
      Inl e \<Rightarrow> False
    | Inr doc \<Rightarrow>
        list_all levels_ok (sections doc) \<and>
        map (\<lambda>s. (level s, map level (subsections s))) (sections doc) =
          [(MAIN, [SUB, SUB]), (MAIN, [])])"
  using parsed_levels_increase [of text_siblings]
  by (simp add: parse_text_siblings)

text \<open>
  Claim C1, evaluated on the document \<open># A\<close>, \<open>## B\<close>, \<open>## C\<close>, \<open># D\<close>. The path of a new
  section joins the titles of all sections that are open when its header is read, before
  the sections it closes are popped. The subsection \<open>C\<close> of \<open>A\<close> gets the path \<open>A/B/C\<close>,
  not \<open>A/C\<close>, and the top-level section \<open>D\<close> gets the path \<open>A/C/D\<close>, not \<open>D\<close>.
\<close>

theorem path_keeps_closed_sections:
  "(case parse_document text_siblings of
      Inl e \<Rightarrow> []
    | Inr doc \<Rightarrow>
        map (\<lambda>s. (title s, path s, map (\<lambda>c. (title c, path c)) (subsections s)))
          (sections doc)) =
   [(''A'', ''A'', [(''B'', ''A/B''), (''C'', ''A/B/C'')]),
    (''D'', ''A/C/D'', [])]"
  by (simp add: parse_text_siblings)

subsection \<open>Code fences\<close>

lemma closed_afterI:
  assumes "k < j" and "j < length lines" and "strip (lines ! j) = ''```''"
  shows "closed_after lines k"
proof -
  from assms(1,2) have "lines ! j \<in> set (drop (Suc k) lines)"
    by (auto simp: in_set_conv_nth intro!: exI [of _ "j - Suc k"])
  with assms(3) show ?thesis
    unfolding closed_after_def list_ex_iff by blast
qed

lemma find_fence_end_Some:
  "find_fence_end lines k acc = (Some c, e) \<Longrightarrow>
     k \<le> e \<and> e < length lines \<and> strip (lines ! e) = ''```''"
proof (induction lines k acc rule: find_fence_end.induct)
  case (1 lines i code_lines)
  show ?case
  proof (cases "i < length lines")
    case False
    with "1.prems" show ?thesis
      by (simp add: find_fence_end.simps)
  next
    case True
    show ?thesis
    proof (cases "strip (lines ! i) = ''```''")
      case closing: True
      with True "1.prems" show ?thesis
        by (simp add: find_fence_end.simps)
    next
      case body: False
      with True "1.prems"
      have "find_fence_end lines (i + 1) (code_lines @ [lines ! i]) = (Some c, e)"
        by (simp add: find_fence_end.simps)
      from "1.IH" [OF True body this] show ?thesis
        by simp
    qed
  qed
qed

lemma find_fence_end_None:
  "\<not> list_ex (\<lambda>l. strip l = ''```'') (drop k lines) \<Longrightarrow> k \<le> length lines \<Longrightarrow>
     find_fence_end lines k acc = (None, length lines)"
proof (induction lines k acc rule: find_fence_end.induct)
  case (1 lines i code_lines)
  show ?case
  proof (cases "i < length lines")
    case False
    with "1.prems"(2) show ?thesis
      by (simp add: find_fence_end.simps)
  next
    case True
    then have d: "drop i lines = lines ! i # drop (i + 1) lines"
      by (simp add: Cons_nth_drop_Suc)
    with "1.prems"(1) have body: "strip (lines ! i) \<noteq> ''```''"
      and rest: "\<not> list_ex (\<lambda>l. strip l = ''```'') (drop (i + 1) lines)"
      by simp_all
    from True have "i + 1 \<le> length lines" by simp
    from "1.IH" [OF True body rest this] True body show ?thesis
      by (simp add: find_fence_end.simps)
  qed
qed

lemma parse_code_block_Some:
  assumes "parse_code_block lines i = (Some b, e)"
  shows "cb_line_number b = i \<and> closed_after lines i"
proof -
  from assms obtain c where f: "find_fence_end lines (i + 1) [] = (Some c, e)"
    and b: "cb_line_number b = i"
    by (auto simp: parse_code_block_def Let_def split: if_splits prod.splits option.splits)
  from find_fence_end_Some [OF f] have "i < e" "e < length lines" "strip (lines ! e) = ''```''"
    by simp_all
  then have "closed_after lines i"
    by (rule closed_afterI)
  with b show ?thesis
    by simp
qed

lemma parse_code_block_unclosed:
  assumes "i < length lines" and "prefix ''```'' (strip (lines ! i))"
    and "\<not> closed_after lines i"
  shows "parse_code_block lines i = (None, length lines)"
proof -
  from assms(1) have "i + 1 \<le> length lines" by simp
  with assms(3) have "find_fence_end lines (i + 1) [] = (None, length lines)"
    unfolding closed_after_def using find_fence_end_None [of "i + 1" lines "[]"] by simp
  with assms(2) show ?thesis
    by (simp add: parse_code_block_def Let_def)
qed

subsection \<open>Code blocks of the parser state\<close>

lemma map_update_same:
  "f x = f (xs ! p) \<Longrightarrow> map f (xs[p := x]) = map f xs"
proof (cases "p < length xs")
  case True
  assume "f x = f (xs ! p)"
  with True have "map f (xs[p := x]) = (map f xs)[p := map f xs ! p]"
    by (simp add: map_update)
  then show ?thesis
    by (simp only: list_update_id)
next
  case False
  then show ?thesis
    by (simp add: list_update_beyond)
qed

lemma cb_inv_init: "cb_inv lines init_state"
  by (simp add: cb_inv_def init_state_def)

lemma cb_inv_append_content:
  "cb_inv lines st \<Longrightarrow> cb_inv lines (append_content line st)"
proof -
  have "map o_code_blocks (heap (append_content line st)) = map o_code_blocks (heap st)"
    by (simp add: append_content_def Let_def map_update_same)
  moreover have "p_code_blocks (append_content line st) = p_code_blocks st"
    by (simp add: append_content_def Let_def)
  ultimately show "cb_inv lines st \<Longrightarrow> cb_inv lines (append_content line st)"
    by (simp add: cb_inv_def)
qed

lemma code_blocks_add_section:
  "map o_code_blocks (heap (add_section_to_hierarchy a st)) = map o_code_blocks (heap st) \<and>
   p_code_blocks (add_section_to_hierarchy a st) = p_code_blocks st"
  by (simp add: add_section_to_hierarchy_def Let_def map_update_same split: option.splits)

lemma cb_inv_new_section:
  assumes "cb_inv lines st"
  shows "cb_inv lines (new_section i lvl t st)"
proof -
  have "map o_code_blocks (heap (new_section i lvl t st)) = map o_code_blocks (heap st) @ [[]]"
    by (simp add: new_section_def Let_def code_blocks_add_section)
  moreover have "p_code_blocks (new_section i lvl t st) = p_code_blocks st"
    by (simp add: new_section_def Let_def code_blocks_add_section)
  ultimately show ?thesis
    using assms by (simp add: cb_inv_def)
qed

lemma cb_inv_attach_code_block:
  assumes inv: "cb_inv lines st" and closed: "closed_after lines (cb_line_number b)"
  shows "cb_inv lines (attach_code_block b st)"
proof -
  let ?top = "last (stack st)"
  let ?b = "b\<lparr>context_section := o_path (heap st ! ?top)\<rparr>"
  let ?x = "(heap st ! ?top)\<lparr>o_code_blocks := o_code_blocks (heap st ! ?top) @ [?b]\<rparr>"
  have h: "heap (attach_code_block b st) = (heap st)[?top := ?x]"
    and g: "p_code_blocks (attach_code_block b st) = p_code_blocks st @ [?b]"
    by (simp_all add: attach_code_block_def Let_def)
  from inv have old: "set (concat (map o_code_blocks (heap st))) \<subseteq> set (p_code_blocks st)"
    and cl: "list_all (\<lambda>b. closed_after lines (cb_line_number b)) (p_code_blocks st)"
    by (simp_all add: cb_inv_def)
  have "set (concat (map o_code_blocks ((heap st)[?top := ?x]))) \<subseteq>
        set (p_code_blocks st @ [?b])"
  proof (cases "?top < length (heap st)")
    case False
    then show ?thesis
      using old by (auto simp: list_update_beyond)
  next
    case True
    then have "set (o_code_blocks (heap st ! ?top)) \<subseteq> set (concat (map o_code_blocks (heap st)))"
      by (auto intro!: bexI [of _ "heap st ! ?top"])
    from this old have "set (o_code_blocks (heap st ! ?top)) \<subseteq> set (p_code_blocks st)"
      by (rule subset_trans)
    moreover have "set (o_code_blocks ?x) = set (o_code_blocks (heap st ! ?top)) \<union> {?b}"
      by simp
    moreover have "set (p_code_blocks st @ [?b]) = set (p_code_blocks st) \<union> {?b}"
      by simp
    ultimately have top: "set (o_code_blocks ?x) \<subseteq> set (p_code_blocks st @ [?b])"
      by blast
    show ?thesis
    proof
      fix y assume "y \<in> set (concat (map o_code_blocks ((heap st)[?top := ?x])))"
      then obtain z where z: "z \<in> set ((heap st)[?top := ?x])" "y \<in> set (o_code_blocks z)"
        by auto
      from z(1) have "z = ?x \<or> z \<in> set (heap st)"
        using set_update_subset_insert [of "heap st" ?top ?x] by auto
      then show "y \<in> set (p_code_blocks st @ [?b])"
      proof
        assume "z = ?x"
        with z(2) top show ?thesis by blast
      next
        assume "z \<in> set (heap st)"
        with z(2) have "y \<in> set (concat (map o_code_blocks (heap st)))"
          by auto
        with old show ?thesis by auto
      qed
    qed
  qed
  moreover from cl closed
  have "list_all (\<lambda>b. closed_after lines (cb_line_number b)) (p_code_blocks st @ [?b])"
    by simp
  ultimately show ?thesis
    unfolding cb_inv_def h g by simp
qed

lemma cb_inv_step:
  assumes inv: "cb_inv lines st" and s: "step lines i st = Inr (st', i')"
  shows "cb_inv lines st'"
proof (cases "header_match (lines ! i)")
  case (Some r)
  obtain n g where r: "r = (n, g)" by (cases r)
  from s Some r obtain lvl where "st' = new_section i lvl (strip g) st"
    by (auto simp: step_def Let_def split: sum.splits)
  then show ?thesis
    using cb_inv_new_section [OF inv] by simp
next
  case None
  from s None have "st' = st \<or> st' = append_content (lines ! i) st \<or>
      (\<exists>b e. parse_code_block lines i = (Some b, e) \<and> st' = attach_code_block b st)"
    by (auto simp: step_def Let_def split: if_splits prod.splits option.splits)
  then show ?thesis
  proof (elim disjE exE conjE)
    assume "st' = st"
    with inv show ?thesis by simp
  next
    assume "st' = append_content (lines ! i) st"
    with cb_inv_append_content [OF inv] show ?thesis by simp
  next
    fix b e
    assume p: "parse_code_block lines i = (Some b, e)" and st': "st' = attach_code_block b st"
    from parse_code_block_Some [OF p] have "closed_after lines (cb_line_number b)"
      by simp
    from cb_inv_attach_code_block [OF inv this] st' show ?thesis
      by simp
  qed
qed

lemma parse_loop_cb_inv:
  assumes "parse_loop lines i st = Inr st'" and "cb_inv lines st"
  shows "cb_inv lines st'"
  using assms(1,2)
proof (rule parse_loop_invariant)
  fix i st st' i'
  assume "cb_inv lines st" and "step lines i st = Inr (st', i')"
  then show "cb_inv lines st'" by (rule cb_inv_step)
qed

lemma section_code_blocks_read_section:
  assumes inv: "heap_inv st"
  shows "a < length (heap st) \<Longrightarrow>
         set (section_code_blocks (read_section n (heap st) a)) \<subseteq>
         set (concat (map o_code_blocks (heap st)))"
proof (induction n arbitrary: a)
  case 0
  then show ?case
    by (auto intro!: bexI [of _ "heap st ! a"])
next
  case (Suc n)
  have own: "set (o_code_blocks (heap st ! a)) \<subseteq> set (concat (map o_code_blocks (heap st)))"
    using Suc.prems by (auto intro!: bexI [of _ "heap st ! a"])
  have "set (section_code_blocks (read_section n (heap st) c)) \<subseteq>
        set (concat (map o_code_blocks (heap st)))"
    if "c \<in> set (o_subsections (heap st ! a))" for c
  proof -
    from heap_invD(3) [OF inv Suc.prems that] have "c < length (heap st)"
      by simp
    then show ?thesis by (rule Suc.IH)
  qed
  with own show ?case
    by (simp add: subset_iff) blast
qed

lemma parse_document_code_blocks:
  "\<exists>doc. parse_document src = Inr doc \<and>
        list_all (\<lambda>b. closed_after (split_nl src) (cb_line_number b)) (all_code_blocks doc) \<and>
        (\<forall>s \<in> set (sections doc). set (section_code_blocks s) \<subseteq> set (all_code_blocks doc))"
proof -
  from parse_document_sections [of src] obtain st doc where
    loop: "parse_loop (split_nl src) 0 init_state = Inr st"
    and inv: "heap_inv st" and doc: "parse_document src = Inr doc"
    and secs: "sections doc = map (read_section (length (heap st)) (heap st)) (p_sections st)"
    and blocks: "all_code_blocks doc = p_code_blocks st"
    by blast
  from parse_loop_cb_inv [OF loop cb_inv_init]
  have cl: "list_all (\<lambda>b. closed_after (split_nl src) (cb_line_number b)) (p_code_blocks st)"
    and sub: "set (concat (map o_code_blocks (heap st))) \<subseteq> set (p_code_blocks st)"
    by (simp_all add: cb_inv_def)
  have "set (section_code_blocks s) \<subseteq> set (all_code_blocks doc)" if "s \<in> set (sections doc)" for s
  proof -
    from that secs obtain a where a: "a \<in> set (p_sections st)"
      and s: "s = read_section (length (heap st)) (heap st) a"
      by auto
    from section_code_blocks_read_section [OF inv heap_invD(2) [OF inv a]] sub
    show ?thesis
      unfolding s blocks by blast
  qed
  with doc cl blocks show ?thesis
    by auto
qed

text \<open>
  Claim C5. A line that opens a code fence and is followed by no closing fence line
  produces no code block: \<open>_parse_code_block\<close> returns no block and the index of the end
  of input, parsing returns a document, and no block of that document, in the
  document-wide list or in the list of any section at any depth, starts at that line.
\<close>

theorem unclosed_fence_no_block:
  assumes "i < length (split_nl src)"
    and "prefix ''```'' (strip (split_nl src ! i))"
    and "\<not> list_ex (\<lambda>l. strip l = ''```'') (drop (Suc i) (split_nl src))"
  shows "parse_code_block (split_nl src) i = (None, length (split_nl src)) \<and>
         (\<exists>doc. parse_document src = Inr doc \<and>
            (\<forall>b \<in> set (all_code_blocks doc). cb_line_number b \<noteq> i) \<and>
            (\<forall>s \<in> set (sections doc). \<forall>b \<in> set (section_code_blocks s).
               cb_line_number b \<noteq> i))"
proof -
  from assms(3) have open_end: "\<not> closed_after (split_nl src) i"
    by (simp add: closed_after_def)
  from parse_document_code_blocks [of src] obtain doc where
    doc: "parse_document src = Inr doc"
    and cl: "list_all (\<lambda>b. closed_after (split_nl src) (cb_line_number b)) (all_code_blocks doc)"
    and sub: "\<forall>s \<in> set (sections doc). set (section_code_blocks s) \<subseteq> set (all_code_blocks doc)"
    by blast
  have g: "cb_line_number b \<noteq> i" if "b \<in> set (all_code_blocks doc)" for b
    using cl that open_end by (auto simp: list_all_iff)
  have "cb_line_number b \<noteq> i" if "s \<in> set (sections doc)" "b \<in> set (section_code_blocks s)" for s b
    using sub that g by blast
  with g doc parse_code_block_unclosed [OF assms(1,2) open_end] show ?thesis
    by blast
qed

lemma parse_text_unclosed:
  "parse_document text_unclosed =
     Inr \<lparr>sections =
            [Section ''A'' MAIN [] ''A'' 0
               [\<lparr>language = ''py'', code = ''x = 1'', context_section = ''A'',
                 cb_line_number = 1\<rparr>]
               [Section ''B'' SUB [] ''A/B'' 4 [] []]],
          sections_by_path =
            [(''A'', Section ''A'' MAIN [] ''A'' 0
               [\<lparr>language = ''py'', code = ''x = 1'', context_section = ''A'',
                 cb_line_number = 1\<rparr>]
               [Section ''B'' SUB [] ''A/B'' 4 [] []]),
             (''A/B'', Section ''B'' SUB [] ''A/B'' 4 [] [])],
          all_code_blocks =
            [\<lparr>language = ''py'', code = ''x = 1'', context_section = ''A'',
              cb_line_number = 1\<rparr>],
          api_entries = []\<rparr>"
  by code_simp

lemma split_text_unclosed:
  "split_nl text_unclosed =
     [''# A'', ''```py'', ''x = 1'', ''```'', ''## B'', ''```js'', ''y'']"
  by code_simp

text \<open>
  Witness for C5: the fence \<open>```js\<close> at line 5 is never closed; the only block of the
  document is the closed \<open>py\<close> block of line 1.
\<close>

theorem unclosed_fence_no_block_witness:
  "parse_code_block (split_nl text_unclosed) 5 = (None, 7) \<and>
   (case parse_document text_unclosed of
      Inl e \<Rightarrow> False
    | Inr doc \<Rightarrow>
        map cb_line_number (all_code_blocks doc) = [1] \<and>
        (\<forall>b \<in> set (all_code_blocks doc). cb_line_number b \<noteq> 5) \<and>
        (\<forall>s \<in> set (sections doc). \<forall>b \<in> set (section_code_blocks s). cb_line_number b \<noteq> 5))"
proof -
  have 1: "5 < length (split_nl text_unclosed)"
    by (simp add: split_text_unclosed)
  have 2: "prefix ''```'' (strip (split_nl text_unclosed ! 5))"
    by (simp add: split_text_unclosed strip_def isspace_def)
  have 3: "\<not> list_ex (\<lambda>l. strip l = ''```'') (drop (Suc 5) (split_nl text_unclosed))"
    by (simp add: split_text_unclosed strip_def isspace_def)
  from unclosed_fence_no_block [OF 1 2 3] show ?thesis
    by (simp add: parse_text_unclosed split_text_unclosed)
qed

subsection \<open>Lines with four or more markers\<close>

lemma header_match_deep:
  assumes "prefix ''####'' line"
  shows "header_match line = None"
proof -
  from assms obtain rest where "line = ''####'' @ rest"
    by (auto simp: prefix_def)
  then have "3 < length (takeWhile (\<lambda>c. c = CHR ''#'') line)"
    by simp
  then show ?thesis
    by (simp add: header_match_def Let_def)
qed

lemma strip_hash:
  "\<exists>r. strip (CHR ''#'' # rest) = CHR ''#'' # r"
proof -
  have ns: "\<not> isspace (CHR ''#'')"
    by (simp add: isspace_def)
  then have "dropWhile isspace (CHR ''#'' # rest) = CHR ''#'' # rest"
    by simp
  moreover have "dropWhile isspace (rev rest @ [CHR ''#'']) =
                 dropWhile isspace (rev rest) @ [CHR ''#'']"
    using ns by (simp add: dropWhile_append3)
  ultimately have "strip (CHR ''#'' # rest) = CHR ''#'' # rev (dropWhile isspace (rev rest))"
    by (simp add: strip_def)
  then show ?thesis
    by blast
qed

lemma not_fence_deep:
  assumes "prefix ''####'' line"
  shows "\<not> prefix ''```'' (strip line)"
proof -
  from assms obtain rest where "line = CHR ''#'' # rest"
    by (auto simp: prefix_def)
  with strip_hash [of rest] obtain r where "strip line = CHR ''#'' # r"
    by auto
  then show ?thesis
    by simp
qed

lemma parse_document_depth:
  "\<exists>doc. parse_document src = Inr doc \<and> list_all (\<lambda>s. depth s \<le> 3) (sections doc)"
proof -
  from parse_document_sections [of src] obtain st doc where
    inv: "heap_inv st" and doc: "parse_document src = Inr doc"
    and secs: "sections doc = map (read_section (length (heap st)) (heap st)) (p_sections st)"
    by blast
  have "depth (read_section (length (heap st)) (heap st) a) \<le> 3"
    if "a \<in> set (p_sections st)" for a
  proof -
    let ?s = "read_section (length (heap st)) (heap st) a"
    from levels_ok_read_section [OF inv heap_invD(2) [OF inv that]]
    have "depth ?s + level_value (level ?s) \<le> 4"
      by (rule depth_levels_ok)
    with level_value_bounds [of "level ?s"] show ?thesis
      by simp
  qed
  then have "list_all (\<lambda>s. depth s \<le> 3) (sections doc)"
    by (simp add: secs list_all_iff)
  with doc show ?thesis
    by blast
qed

text \<open>
  Claim C9, as stated, has every line that begins with four or more \<open>#\<close> appended to the
  content of the open section. In this document the line \<open>#### x\<close> lies between the fences
  of a code block of the open section \<open>A\<close>: it becomes the body of the block, and the
  content of \<open>A\<close> stays empty.
\<close>

theorem deep_marker_in_fence_counterexample:
  "prefix ''####'' (split_nl text_fenced_deep ! 2) \<and>
   (case parse_document text_fenced_deep of
      Inl e \<Rightarrow> False
    | Inr doc \<Rightarrow>
        map (\<lambda>s. (title s, content s, map code (code_blocks s))) (sections doc) =
          [(''A'', [], [''#### x''])])"
  by code_simp

text \<open>
  Claim C9, amended. A line beginning with four or more \<open>#\<close> that the main loop reads
  (a line that is not inside a fenced code block) is never a header and never opens a
  fence. The loop step creates no section: the heap keeps its size, the root list, the
  stack and all subsection lists are unchanged. When a section is open the line and a
  newline are appended to the content of the innermost open section; when none is open
  the state is unchanged. In every parsed document the nesting depth is at most three.
\<close>

theorem deep_marker_line_is_content:
  assumes "prefix ''####'' (lines ! i)"
  shows "header_match (lines ! i) = None \<and>
         \<not> prefix ''```'' (strip (lines ! i)) \<and>
         step lines i st =
           Inr (if stack st = [] then st else append_content (lines ! i) st, i) \<and>
         length (heap (append_content (lines ! i) st)) = length (heap st) \<and>
         p_sections (append_content (lines ! i) st) = p_sections st \<and>
         stack (append_content (lines ! i) st) = stack st \<and>
         map o_subsections (heap (append_content (lines ! i) st)) =
           map o_subsections (heap st) \<and>
         (last (stack st) < length (heap st) \<longrightarrow>
            o_content (heap (append_content (lines ! i) st) ! last (stack st)) =
              o_content (heap st ! last (stack st)) @ lines ! i @ [NL]) \<and>
         (\<exists>doc. parse_document src = Inr doc \<and>
            list_all (\<lambda>s. depth s \<le> 3) (sections doc))"
proof -
  note h = header_match_deep [OF assms] and f = not_fence_deep [OF assms]
  have s: "step lines i st =
           Inr (if stack st = [] then st else append_content (lines ! i) st, i)"
    using h f by (simp add: step_def Let_def)
  have a: "length (heap (append_content (lines ! i) st)) = length (heap st)"
    "p_sections (append_content (lines ! i) st) = p_sections st"
    "stack (append_content (lines ! i) st) = stack st"
    by (simp_all add: append_content_def Let_def)
  have m: "map o_subsections (heap (append_content (lines ! i) st)) =
           map o_subsections (heap st)"
    by (simp add: append_content_def Let_def map_update_same)
  have c: "last (stack st) < length (heap st) \<longrightarrow>
            o_content (heap (append_content (lines ! i) st) ! last (stack st)) =
              o_content (heap st ! last (stack st)) @ lines ! i @ [NL]"
    by (simp add: append_content_def Let_def)
  from h f s a m c parse_document_depth [of src] show ?thesis
    by blast
qed

lemma parse_text_deep:
  "parse_document text_deep =
     Inr \<lparr>sections =
            [Section ''A'' MAIN (''#### deep'' @ [NL]) ''A'' 0 []
               [Section ''B'' SUB [] ''A/B'' 2 []
                  [Section ''C'' DETAIL (''##### x'' @ [NL]) ''A/B/C'' 3 [] []]]],
          sections_by_path =
            [(''A'', Section ''A'' MAIN (''#### deep'' @ [NL]) ''A'' 0 []
               [Section ''B'' SUB [] ''A/B'' 2 []
                  [Section ''C'' DETAIL (''##### x'' @ [NL]) ''A/B/C'' 3 [] []]]),
             (''A/B'', Section ''B'' SUB [] ''A/B'' 2 []
                  [Section ''C'' DETAIL (''##### x'' @ [NL]) ''A/B/C'' 3 [] []]),
             (''A/B/C'', Section ''C'' DETAIL (''##### x'' @ [NL]) ''A/B/C'' 3 [] [])],
          all_code_blocks = [], api_entries = []\<rparr>"
  by code_simp

text \<open>
  Witness for C9: the step at the line \<open>#### deep\<close> with the section \<open>A\<close> open, and the
  document it comes from, whose deepest section is at depth three.
\<close>

theorem deep_marker_line_is_content_witness:
  "step [''# A'', ''#### deep''] 1 state_open_A =
     Inr (\<lparr>heap = [\<lparr>o_title = ''A'', o_level = MAIN, o_content = ''#### deep'' @ [NL],
                    o_path = ''A'', o_line_number = 0, o_code_blocks = [],
                    o_subsections = []\<rparr>],
           p_sections = [0], p_code_blocks = [], stack = [0]\<rparr>, 1) \<and>
   (case parse_document text_deep of
      Inl e \<Rightarrow> False
    | Inr doc \<Rightarrow>
        list_all (\<lambda>s. depth s \<le> 3) (sections doc) \<and>
        map depth (sections doc) = [3] \<and>
        map content (sections doc) = [''#### deep'' @ [NL]])"
proof -
  have p: "prefix ''####'' ([''# A'', ''#### deep''] ! 1)"
    by simp
  from deep_marker_line_is_content [OF p, of state_open_A text_deep] show ?thesis
    by (simp add: parse_text_deep state_open_A_def append_content_def)
qed

end
